theory Spec2Isabelle
  imports Main "HOL-Library.Finite_Map"
begin

unbundle bit_operations_syntax

section \<open>Types of the Go type checker\<close>

text \<open>
  The generator works on the values of the standard library's \<^verbatim>\<open>go/types\<close>.  A type is
  one of that package's representations; a named type carries its package (absent for the
  universe), its name and its underlying type.  \<^verbatim>\<open>types.Identical\<close> is equality here.
  The kinds of basic types and their property flags are the library's table \<^verbatim>\<open>Typ\<close>.
\<close>

datatype basic_kind =
    KInvalid
  | KBool | KInt | KInt8 | KInt16 | KInt32 | KInt64
  | KUint | KUint8 | KUint16 | KUint32 | KUint64 | KUintptr
  | KFloat32 | KFloat64 | KComplex64 | KComplex128
  | KString | KUnsafePointer
  | KUntypedBool | KUntypedInt | KUntypedRune | KUntypedFloat | KUntypedComplex
  | KUntypedString | KUntypedNil

datatype gotype =
    Basic basic_kind
  | Array nat gotype
  | Slice gotype
  | Struct "(string \<times> gotype) list"
  | Pointer gotype
  | Tuple "(string \<times> gotype) list"
  | Signature "(string \<times> gotype) list" "(string \<times> gotype) list"
  | Interface "(string \<times> gotype) list"
  | Map gotype gotype
  | Chan gotype
  | Named "string option" string gotype

type_synonym pos = int

definition IsValid :: "pos \<Rightarrow> bool" where
  "IsValid p = (p \<noteq> 0)"

section \<open>Providers, provider sets and calls\<close>

text \<open>
  The structs of the source.  Field names carry a prefix, since several structs share the
  names \<^verbatim>\<open>importPath\<close>, \<^verbatim>\<open>funcName\<close>, \<^verbatim>\<open>args\<close>, \<^verbatim>\<open>out\<close>, \<^verbatim>\<open>hasErr\<close> and \<^verbatim>\<open>pos\<close>.
\<close>

record providerInfo =
  pi_importPath :: string
  pi_funcName :: string
  pi_pos :: pos
  pi_args :: "gotype list"
  pi_out :: gotype
  pi_hasErr :: bool

record providerSetRef =
  ref_importPath :: string
  ref_name :: string

record providerSetImport =
  imp_ref :: providerSetRef
  imp_pos :: pos

record providerSet =
  ps_providers :: "providerInfo list"
  ps_imports :: "providerSetImport list"

record call =
  call_importPath :: string
  call_funcName :: string
  call_args :: "nat list"
  call_out :: gotype
  call_hasErr :: bool

text \<open>
  Every \<^verbatim>\<open>fmt.Errorf\<close> of the source is a constructor that keeps the values the message
  is formatted from; a run-time panic is the constructor \<open>Panic\<close>.
\<close>

datatype error =
    NoReturnValues string
  | SecondReturnNotError string gotype
  | TooManyReturnValues string
  | ProviderReturnsError string gotype
  | MultipleInputs gotype
  | InputConflict gotype string pos
  | CycleFor gotype
  | NoProviderOutput gotype
  | NoProviderRequired gotype gotype
  | MultipleBindingsInjector pos gotype pos
  | MultipleBindingsImported pos gotype providerSetRef pos
  | NoSuchProviderSet string string
  | AnalyzePackage string
  | FindProviderSets string
  | AtPos pos error
  | Panic string

section \<open>The provider set cache\<close>

text \<open>
  \<^verbatim>\<open>providerSetCache.get\<close> analyses a package on first use and keeps the outcome.  The
  outcome of \<^verbatim>\<open>findProviderSets\<close> for each package of the loaded program is data here:
  a failure with its message, or the package's sets by name.  A package the program does
  not hold has no entry.  Any failure of \<^verbatim>\<open>get\<close> ends the run, so the cache is read
  at most once per failing package and the lookup is a function of the program.
\<close>

datatype pkg_sets = Failed string | Sets "(string \<times> providerSet) list"

type_synonym providerSetCache = "(string \<times> pkg_sets) list"

definition get :: "providerSetCache \<Rightarrow> providerSetRef \<Rightarrow> error + providerSet" where
  "get mc ref =
     (case map_of mc (ref_importPath ref) of
        None \<Rightarrow> Inl (AnalyzePackage (ref_importPath ref))
      | Some (Failed msg) \<Rightarrow> Inl (FindProviderSets msg)
      | Some (Sets mods) \<Rightarrow>
          (case map_of mods (ref_name ref) of
             None \<Rightarrow> Inl (NoSuchProviderSet (ref_name ref) (ref_importPath ref))
           | Some m \<Rightarrow> Inr m))"

section \<open>Merging provider sets\<close>

type_synonym pmap = "(gotype, providerInfo) fmap"

record nextEnt =
  ne_to :: providerSetRef
  ne_from :: providerSetRef
  ne_pos :: pos

definition zeroRef :: providerSetRef where
  "zeroRef = \<lparr>ref_importPath = [], ref_name = []\<rparr>"

definition rootEnt :: "providerSetRef \<Rightarrow> nextEnt" where
  "rootEnt ref = \<lparr>ne_to = ref, ne_from = zeroRef, ne_pos = 0\<rparr>"

definition importEnt :: "providerSetRef \<Rightarrow> providerSetImport \<Rightarrow> nextEnt" where
  "importEnt src imp = \<lparr>ne_to = imp_ref imp, ne_from = src, ne_pos = imp_pos imp\<rparr>"

text \<open>The loop over \<^verbatim>\<open>mod.providers\<close> in \<^verbatim>\<open>buildProviderMap\<close>.\<close>

fun addProviders :: "nextEnt \<Rightarrow> pmap \<Rightarrow> providerInfo list \<Rightarrow> error + pmap" where
  "addProviders cur pm [] = Inr pm"
| "addProviders cur pm (p # ps) =
     (case fmlookup pm (pi_out p) of
        Some prev \<Rightarrow>
          (if ref_importPath (ne_from cur) \<noteq> []
           then Inl (MultipleBindingsInjector (pi_pos p) (pi_out p) (pi_pos prev))
           else Inl (MultipleBindingsImported (pi_pos p) (pi_out p) (ne_from cur) (pi_pos prev)))
      | None \<Rightarrow> addProviders cur (fmupd (pi_out p) p pm) ps)"

text \<open>
  The loop \<^verbatim>\<open>for len(next) > 0\<close>.  Whether it ends is a property to prove, so the result
  is optional: \<open>None\<close> stands for a loop that never returns.  The argument \<open>fetched\<close>
  is not a variable of the source: it records, in order, the references handed to
  \<^verbatim>\<open>mc.get\<close>, and is returned beside the result.
\<close>

partial_function (option) buildProviderMap_loop ::
  "providerSetCache \<Rightarrow> pmap \<Rightarrow> providerSetRef set \<Rightarrow> providerSetRef list \<Rightarrow> nextEnt list
     \<Rightarrow> ((error + pmap) \<times> providerSetRef list) option" where
  "buildProviderMap_loop mc pm visited fetched next =
     (case next of
        [] \<Rightarrow> Some (Inr pm, fetched)
      | cur # rest \<Rightarrow>
          (if ne_to cur \<in> visited then buildProviderMap_loop mc pm visited fetched rest
           else
             (case get mc (ne_to cur) of
                Inl err \<Rightarrow>
                  (if \<not> IsValid (ne_pos cur) then Some (Inl err, fetched @ [ne_to cur])
                   else Some (Inl (AtPos (ne_pos cur) err), fetched @ [ne_to cur]))
              | Inr md \<Rightarrow>
                  (case addProviders cur pm (ps_providers md) of
                     Inl err \<Rightarrow> Some (Inl err, fetched @ [ne_to cur])
                   | Inr pm' \<Rightarrow>
                       buildProviderMap_loop mc pm' (insert (ne_to cur) visited)
                         (fetched @ [ne_to cur])
                         (rest @ map (importEnt (ne_to cur)) (ps_imports md))))))"

declare buildProviderMap_loop.simps [code]

definition buildProviderMap :: "providerSetCache \<Rightarrow> providerSetRef list \<Rightarrow> (error + pmap) option" where
  "buildProviderMap mc sets =
     map_option fst (buildProviderMap_loop mc fmempty {} [] (map rootEnt sets))"

section \<open>Solving\<close>

text \<open>The state the closure \<^verbatim>\<open>visit\<close> shares with \<^verbatim>\<open>solve\<close>.\<close>

record solve_state =
  index :: "gotype \<rightharpoonup> nat"
  calls :: "call list"

text \<open>The nested loops over \<^verbatim>\<open>given\<close> and \<^verbatim>\<open>given[:i]\<close>; \<open>seen\<close> is \<^verbatim>\<open>given[:i]\<close>.\<close>

fun findDup :: "gotype list \<Rightarrow> gotype list \<Rightarrow> gotype option" where
  "findDup seen [] = None"
| "findDup seen (g # gs) = (if g \<in> set seen then Some g else findDup (seen @ [g]) gs)"

text \<open>The loop that seeds \<^verbatim>\<open>index\<close> with the givens; \<open>i\<close> is the loop counter.\<close>

fun seedIndex :: "pmap \<Rightarrow> (gotype \<rightharpoonup> nat) \<Rightarrow> nat \<Rightarrow> gotype list \<Rightarrow> error + (gotype \<rightharpoonup> nat)" where
  "seedIndex prov idx i [] = Inr idx"
| "seedIndex prov idx i (g # gs) =
     (case fmlookup prov g of
        Some pp \<Rightarrow> Inl (InputConflict g (pi_funcName pp) (pi_pos pp))
      | None \<Rightarrow> seedIndex prov (idx(g \<mapsto> i)) (Suc i) gs)"

text \<open>
  \<^verbatim>\<open>args[i] = index.At(p.args[i]).(int)\<close>: the type assertion panics on a type without
  an entry.
\<close>

fun lookupArgs :: "(gotype \<rightharpoonup> nat) \<Rightarrow> gotype list \<Rightarrow> nat list option" where
  "lookupArgs idx [] = Some []"
| "lookupArgs idx (a # as) =
     (case idx a of
        None \<Rightarrow> None
      | Some i \<Rightarrow> (case lookupArgs idx as of None \<Rightarrow> None | Some is \<Rightarrow> Some (i # is)))"

text \<open>
  The closure \<^verbatim>\<open>visit\<close>, and its loop over \<^verbatim>\<open>p.args\<close> as \<open>visit_args\<close>.  \<open>ngiven\<close> is
  \<^verbatim>\<open>len(given)\<close>.  An empty trail would be an index out of range.
\<close>

function (sequential)
  visit :: "pmap \<Rightarrow> nat \<Rightarrow> solve_state \<Rightarrow> gotype list \<Rightarrow> error + solve_state" and
  visit_args :: "pmap \<Rightarrow> nat \<Rightarrow> solve_state \<Rightarrow> gotype list \<Rightarrow> gotype list \<Rightarrow> error + solve_state"
where
  "visit prov ngiven st trail =
     (if trail = [] then Inl (Panic ''index out of range'')
      else if index st (last trail) \<noteq> None then Inr st
      else if last trail \<in> set (butlast trail) then Inl (CycleFor (last trail))
      else
        (case fmlookup prov (last trail) of
           None \<Rightarrow>
             (if length trail = 1 then Inl (NoProviderOutput (last trail))
              else Inl (NoProviderRequired (last trail) (trail ! (length trail - 2))))
         | Some p \<Rightarrow>
             (case visit_args prov ngiven st trail (pi_args p) of
                Inl err \<Rightarrow> Inl err
              | Inr st' \<Rightarrow>
                  (case lookupArgs (index st') (pi_args p) of
                     None \<Rightarrow> Inl (Panic ''interface conversion'')
                   | Some args \<Rightarrow>
                       Inr \<lparr>index = (index st')(last trail \<mapsto> ngiven + length (calls st')),
                            calls = calls st' @
                              [\<lparr>call_importPath = pi_importPath p, call_funcName = pi_funcName p,
                                call_args = args, call_out = last trail,
                                call_hasErr = pi_hasErr p\<rparr>]\<rparr>))))"
| "visit_args prov ngiven st trail [] = Inr st"
| "visit_args prov ngiven st trail (a # as) =
     (case visit prov ngiven st (trail @ [a]) of
        Inl err \<Rightarrow> Inl err
      | Inr st' \<Rightarrow> visit_args prov ngiven st' trail as)"
  by pat_completeness auto

termination
proof (relation "inv_image (less_than <*lex*> less_than)
    (\<lambda>x. case x of
       Inl (prov, ngiven, st, trail) \<Rightarrow> (card (fmdom' prov - set (butlast trail)), 0)
     | Inr (prov, ngiven, st, trail, as) \<Rightarrow> (card (fmdom' prov - set trail), Suc (length as)))",
    goal_cases)
  case 1
  show ?case by (intro wf_inv_image wf_lex_prod wf_less_than)
next
  case (2 prov ngiven st trail x2)
  have mem: "last trail \<in> fmdom' prov - set (butlast trail)"
    using 2 by (simp add: fmdom'I)
  have "set trail = insert (last trail) (set (butlast trail))"
    using 2(1) by (metis append_butlast_last_id list.simps(15) rotate1.simps(2) set_rotate1)
  then have "fmdom' prov - set trail = (fmdom' prov - set (butlast trail)) - {last trail}"
    by auto
  moreover have "finite (fmdom' prov - set (butlast trail))"
    by simp
  ultimately have "card (fmdom' prov - set trail) < card (fmdom' prov - set (butlast trail))"
    using mem card_Diff1_less [of "fmdom' prov - set (butlast trail)" "last trail"] by simp
  then show ?case by simp
next
  case 3
  show ?case by auto
next
  case 4
  show ?case by auto
qed

declare visit.simps [simp del]

text \<open>\<^verbatim>\<open>solve\<close>; the result is \<open>None\<close> only if the merge never returns.\<close>

definition solve ::
  "providerSetCache \<Rightarrow> gotype \<Rightarrow> gotype list \<Rightarrow> providerSetRef list \<Rightarrow> (error + call list) option" where
  "solve mc out given sets =
     (case findDup [] given of
        Some g \<Rightarrow> Some (Inl (MultipleInputs g))
      | None \<Rightarrow>
          (case buildProviderMap mc sets of
             None \<Rightarrow> None
           | Some (Inl err) \<Rightarrow> Some (Inl err)
           | Some (Inr prov) \<Rightarrow>
               (case seedIndex prov Map.empty 0 given of
                  Inl err \<Rightarrow> Some (Inl err)
                | Inr idx \<Rightarrow>
                    (case visit prov (length given) \<lparr>index = idx, calls = []\<rparr> [out] of
                       Inl err \<Rightarrow> Some (Inl err)
                     | Inr st \<Rightarrow> Some (Inr (calls st))))))"

section \<open>The generator\<close>

text \<open>
  The struct \<^verbatim>\<open>gen\<close>: the current package, the text written so far, the alias of every
  package qualified so far and the number of aliases handed out.
\<close>

record gen =
  g_currPackage :: string
  g_buf :: string
  g_imports :: "string \<rightharpoonup> string"
  g_n :: nat

definition newGen :: "string \<Rightarrow> gen" where
  "newGen pkg = \<lparr>g_currPackage = pkg, g_buf = [], g_imports = Map.empty, g_n = 0\<rparr>"

text \<open>\<^verbatim>\<open>%d\<close> of a number that is not negative.\<close>

definition digit :: "nat \<Rightarrow> char" where
  "digit k = ''0123456789'' ! k"

fun showNat :: "nat \<Rightarrow> string" where
  "showNat k = (if k < 10 then [digit k] else showNat (k div 10) @ [digit (k mod 10)])"

declare showNat.simps [simp del]

text \<open>\<^verbatim>\<open>gen.p\<close> appends to the buffer.\<close>

definition p :: "gen \<Rightarrow> string \<Rightarrow> gen" where
  "p g s = g\<lparr>g_buf := g_buf g @ s\<rparr>"

definition qualifyImport :: "gen \<Rightarrow> string \<Rightarrow> string \<times> gen" where
  "qualifyImport g path =
     (if path = g_currPackage g then ([], g)
      else
        (let name = (case g_imports g path of None \<Rightarrow> [] | Some s \<Rightarrow> s) in
         if name \<noteq> [] then (name, g)
         else
           (let name = ''pkg'' @ showNat (g_n g) in
            (name, g\<lparr>g_n := g_n g + 1, g_imports := (g_imports g)(path \<mapsto> name)\<rparr>))))"

definition qualifiedID :: "gen \<Rightarrow> string \<Rightarrow> string \<Rightarrow> string \<times> gen" where
  "qualifiedID g path symb =
     (let (name, g1) = qualifyImport g path in
      if name = [] then (symb, g1) else (name @ ''.'' @ symb, g1))"

subsection \<open>The type checker's functions the generator calls\<close>

fun basicName :: "basic_kind \<Rightarrow> string" where
  "basicName KInvalid = ''invalid type''"
| "basicName KBool = ''bool''"
| "basicName KInt = ''int''"
| "basicName KInt8 = ''int8''"
| "basicName KInt16 = ''int16''"
| "basicName KInt32 = ''int32''"
| "basicName KInt64 = ''int64''"
| "basicName KUint = ''uint''"
| "basicName KUint8 = ''uint8''"
| "basicName KUint16 = ''uint16''"
| "basicName KUint32 = ''uint32''"
| "basicName KUint64 = ''uint64''"
| "basicName KUintptr = ''uintptr''"
| "basicName KFloat32 = ''float32''"
| "basicName KFloat64 = ''float64''"
| "basicName KComplex64 = ''complex64''"
| "basicName KComplex128 = ''complex128''"
| "basicName KString = ''string''"
| "basicName KUnsafePointer = ''Pointer''"
| "basicName KUntypedBool = ''untyped bool''"
| "basicName KUntypedInt = ''untyped int''"
| "basicName KUntypedRune = ''untyped rune''"
| "basicName KUntypedFloat = ''untyped float''"
| "basicName KUntypedComplex = ''untyped complex''"
| "basicName KUntypedString = ''untyped string''"
| "basicName KUntypedNil = ''untyped nil''"

text \<open>
  \<^verbatim>\<open>types.TypeString(t, g.qualifyPkg)\<close>.  The qualifier is called once for every named
  type of a package, from left to right, and it changes the generator; the spelling of
  composite types is shortened (no struct tags, channel directions or variadic marks).
\<close>

fun TypeString :: "gen \<Rightarrow> gotype \<Rightarrow> string \<times> gen"
  and writeVars :: "gen \<Rightarrow> string \<Rightarrow> (string \<times> gotype) list \<Rightarrow> string \<times> gen" where
  "TypeString g (Basic k) =
     ((if k = KUnsafePointer then ''unsafe.'' else []) @ basicName k, g)"
| "TypeString g (Array len t) =
     (let (s, g1) = TypeString g t in (''['' @ showNat len @ '']'' @ s, g1))"
| "TypeString g (Slice t) = (let (s, g1) = TypeString g t in (''[]'' @ s, g1))"
| "TypeString g (Struct flds) =
     (let (s, g1) = writeVars g ''; '' flds in (''struct{'' @ s @ ''}'', g1))"
| "TypeString g (Pointer t) = (let (s, g1) = TypeString g t in (''*'' @ s, g1))"
| "TypeString g (Tuple vars) =
     (let (s, g1) = writeVars g '', '' vars in (''('' @ s @ '')'', g1))"
| "TypeString g (Signature params results) =
     (let (s, g1) = writeVars g '', '' params;
          (r, g2) = writeVars g1 '', '' results
      in (''func('' @ s @ '')'' @ (if results = [] then [] else '' ('' @ r @ '')''), g2))"
| "TypeString g (Interface methods) =
     (let (s, g1) = writeVars g ''; '' methods in (''interface{'' @ s @ ''}'', g1))"
| "TypeString g (Map k v) =
     (let (s, g1) = TypeString g k; (r, g2) = TypeString g1 v
      in (''map['' @ s @ '']'' @ r, g2))"
| "TypeString g (Chan t) = (let (s, g1) = TypeString g t in (''chan '' @ s, g1))"
| "TypeString g (Named pkg name u) =
     (case pkg of
        None \<Rightarrow> (name, g)
      | Some path \<Rightarrow>
          (let (q, g1) = qualifyImport g path
           in ((if q = [] then [] else q @ ''.'') @ name, g1)))"
| "writeVars g sep [] = ([], g)"
| "writeVars g sep ((name, t) # vars) =
     (let (s, g1) = TypeString g t; (r, g2) = writeVars g1 sep vars
      in ((if name = [] then s else name @ '' '' @ s) @ (if vars = [] then [] else sep) @ r, g2))"

fun Underlying :: "gotype \<Rightarrow> gotype" where
  "Underlying (Named pkg name u) = Underlying u"
| "Underlying t = t"

definition IsBoolean :: int where "IsBoolean = 1"
definition IsInteger :: int where "IsInteger = 2"
definition IsUnsigned :: int where "IsUnsigned = 4"
definition IsFloat :: int where "IsFloat = 8"
definition IsComplex :: int where "IsComplex = 16"
definition IsString :: int where "IsString = 32"
definition IsUntyped :: int where "IsUntyped = 64"

fun Info :: "basic_kind \<Rightarrow> int" where
  "Info KInvalid = 0"
| "Info KBool = IsBoolean"
| "Info KInt = IsInteger"
| "Info KInt8 = IsInteger"
| "Info KInt16 = IsInteger"
| "Info KInt32 = IsInteger"
| "Info KInt64 = IsInteger"
| "Info KUint = IsInteger OR IsUnsigned"
| "Info KUint8 = IsInteger OR IsUnsigned"
| "Info KUint16 = IsInteger OR IsUnsigned"
| "Info KUint32 = IsInteger OR IsUnsigned"
| "Info KUint64 = IsInteger OR IsUnsigned"
| "Info KUintptr = IsInteger OR IsUnsigned"
| "Info KFloat32 = IsFloat"
| "Info KFloat64 = IsFloat"
| "Info KComplex64 = IsComplex"
| "Info KComplex128 = IsComplex"
| "Info KString = IsString"
| "Info KUnsafePointer = 0"
| "Info KUntypedBool = IsBoolean OR IsUntyped"
| "Info KUntypedInt = IsInteger OR IsUntyped"
| "Info KUntypedRune = IsInteger OR IsUntyped"
| "Info KUntypedFloat = IsFloat OR IsUntyped"
| "Info KUntypedComplex = IsComplex OR IsUntyped"
| "Info KUntypedString = IsString OR IsUntyped"
| "Info KUntypedNil = IsUntyped"

text \<open>The predeclared type \<^verbatim>\<open>error\<close> of the universe scope.\<close>

definition errorType :: gotype where
  "errorType = Named None ''error'' (Interface [(''Error'', Signature [] [([], Basic KString)])])"

subsection \<open>Zero values\<close>

text \<open>\<^verbatim>\<open>zeroValue(t, g.qualifyPkg)\<close>; both \<^verbatim>\<open>panic("unreachable")\<close> are the error \<open>Panic\<close>.\<close>

definition zeroValue :: "gen \<Rightarrow> gotype \<Rightarrow> error + string \<times> gen" where
  "zeroValue g t =
     (case Underlying t of
        Array len e \<Rightarrow> (let (s, g1) = TypeString g t in Inr (s @ ''{}'', g1))
      | Struct flds \<Rightarrow> (let (s, g1) = TypeString g t in Inr (s @ ''{}'', g1))
      | Basic k \<Rightarrow>
          (let info = Info k in
           if info AND IsBoolean \<noteq> 0 then Inr (''false'', g)
           else if info AND (IsInteger OR IsFloat OR IsComplex) \<noteq> 0 then Inr (''0'', g)
           else if info AND IsString \<noteq> 0 then Inr ([CHR 0x22, CHR 0x22], g)
           else Inl (Panic ''unreachable''))
      | Chan e \<Rightarrow> Inr (''nil'', g)
      | Interface methods \<Rightarrow> Inr (''nil'', g)
      | Map k v \<Rightarrow> Inr (''nil'', g)
      | Pointer e \<Rightarrow> Inr (''nil'', g)
      | Signature params results \<Rightarrow> Inr (''nil'', g)
      | Slice e \<Rightarrow> Inr (''nil'', g)
      | Tuple vars \<Rightarrow> Inl (Panic ''unreachable'')
      | Named pkg name u \<Rightarrow> Inl (Panic ''unreachable''))"

subsection \<open>Emitting an injector\<close>

text \<open>The injector's \<^verbatim>\<open>*types.Signature\<close>: its parameters and results, each a name and a type.\<close>

record signature =
  sig_params :: "(string \<times> gotype) list"
  sig_results :: "(string \<times> gotype) list"

text \<open>The loop that writes the parameter list; \<open>i\<close> is the loop counter.\<close>

fun emitParams :: "gen \<Rightarrow> nat \<Rightarrow> (string \<times> gotype) list \<Rightarrow> gen" where
  "emitParams g i [] = g"
| "emitParams g i ((name, t) # params) =
     (let g1 = (if i > 0 then p g '', '' else g);
          (s, g2) = TypeString g1 t
      in emitParams (p g2 (name @ '' '' @ s)) (Suc i) params)"

text \<open>The loop over \<^verbatim>\<open>c.args\<close>; \<open>j\<close> is the loop counter.\<close>

fun emitArgs :: "gen \<Rightarrow> (string \<times> gotype) list \<Rightarrow> nat \<Rightarrow> nat list \<Rightarrow> gen" where
  "emitArgs g params j [] = g"
| "emitArgs g params j (a # as) =
     (let g1 = (if j > 0 then p g '', '' else g);
          g2 = (if a < length params then p g1 (fst (params ! a))
                else p g1 (''v'' @ showNat (a - length params)))
      in emitArgs g2 params (Suc j) as)"

text \<open>The loop over \<^verbatim>\<open>calls\<close> that writes one assignment per call; \<open>i\<close> is the loop counter.\<close>

fun emitCalls :: "gen \<Rightarrow> (string \<times> gotype) list \<Rightarrow> string \<Rightarrow> nat \<Rightarrow> call list \<Rightarrow> gen" where
  "emitCalls g params zv i [] = g"
| "emitCalls g params zv i (c # cs) =
     (let g1 = p g ([CHR 0x09] @ ''v'' @ showNat i);
          g2 = (if call_hasErr c then p g1 '', err'' else g1);
          (qid, g3) = qualifiedID g2 (call_importPath c) (call_funcName c);
          g4 = p g3 ('' := '' @ qid @ ''('');
          g5 = emitArgs g4 params 0 (call_args c);
          g6 = p g5 ('')\<newline>'');
          g7 = (if call_hasErr c
                then p (p (p g6 ([CHR 0x09] @ ''if err != nil {\<newline>''))
                          ([CHR 0x09, CHR 0x09] @ ''return '' @ zv @ '', err\<newline>''))
                       ([CHR 0x09] @ ''}\<newline>'')
                else g6)
      in emitCalls g7 params zv (Suc i) cs)"

text \<open>The loop over \<^verbatim>\<open>given\<close> that returns the parameter of the output type.\<close>

fun emitReturnGiven :: "gen \<Rightarrow> gotype \<Rightarrow> (string \<times> gotype) list \<Rightarrow> gen" where
  "emitReturnGiven g outType [] = g"
| "emitReturnGiven g outType ((name, t) # params) =
     (if outType = t then p g ([CHR 0x09] @ ''return '' @ name)
      else emitReturnGiven g outType params)"

text \<open>
  The second half of \<^verbatim>\<open>gen.inject\<close>, from the first \<^verbatim>\<open>g.p\<close> on.  A panic of
  \<^verbatim>\<open>zeroValue\<close> ends it with the function header already written.
\<close>

definition injectEmit ::
  "string \<Rightarrow> (string \<times> gotype) list \<Rightarrow> gotype \<Rightarrow> bool \<Rightarrow> call list \<Rightarrow> gen \<Rightarrow> error option \<times> gen" where
  "injectEmit name params outType returnsErr cs g =
     (let g1 = p g (''func '' @ name @ ''('');
          g2 = emitParams g1 0 params;
          (ts, g3) = TypeString g2 outType;
          g4 = (if returnsErr then p g3 ('') ('' @ ts @ '', error) {\<newline>'')
                else p g3 ('') '' @ ts @ '' {\<newline>''))
      in case zeroValue g4 outType of
           Inl err \<Rightarrow> (Some err, g4)
         | Inr (zv, g5) \<Rightarrow>
             (let g6 = emitCalls g5 params zv 0 cs;
                  g7 = (if length cs = 0 then emitReturnGiven g6 outType params
                        else p g6 ([CHR 0x09] @ ''return v'' @ showNat (length cs - 1)));
                  g8 = (if returnsErr then p g7 '', nil'' else g7)
              in (None, p g8 ''\<newline>}\<newline>'')))"

text \<open>
  \<^verbatim>\<open>gen.inject\<close>.  The result is the error returned, if any, and the generator as the call
  leaves it; \<open>None\<close> only if the merge never returns.
\<close>

definition inject ::
  "providerSetCache \<Rightarrow> string \<Rightarrow> signature \<Rightarrow> providerSetRef list \<Rightarrow> gen
     \<Rightarrow> (error option \<times> gen) option" where
  "inject mc name sig sets g =
     (let results = sig_results sig in
      if length results = 0 then Some (Some (NoReturnValues name), g)
      else if length results = 2 \<and> snd (results ! 1) \<noteq> errorType
        then Some (Some (SecondReturnNotError name (snd (results ! 1))), g)
      else if length results > 2 then Some (Some (TooManyReturnValues name), g)
      else
        (let returnsErr = (length results = 2);
             outType = snd (results ! 0);
             params = sig_params sig
         in case solve mc outType (map snd params) sets of
              None \<Rightarrow> None
            | Some (Inl err) \<Rightarrow> Some (Some err, g)
            | Some (Inr cs) \<Rightarrow>
                (case find (\<lambda>c. call_hasErr c \<and> \<not> returnsErr) cs of
                   Some c \<Rightarrow> Some (Some (ProviderReturnsError name (call_out c)), g)
                 | None \<Rightarrow> Some (injectEmit name params outType returnsErr cs g))))"

text \<open>
  The loop of \<^verbatim>\<open>Generate\<close> over the injector functions of the package, on one generator:
  each injector is its position, its name, its signature and the sets it uses.  The first
  error ends the run.
\<close>

record injector =
  inj_pos :: pos
  inj_name :: string
  inj_sig :: signature
  inj_sets :: "providerSetRef list"


section \<open>Notions used in the statements\<close>

text \<open>The references \<^verbatim>\<open>providerSetCache.get\<close> can answer with a set.\<close>

fun known_refs :: "providerSetCache \<Rightarrow> providerSetRef list" where
  "known_refs [] = []"
| "known_refs ((path, Failed msg) # mc) = known_refs mc"
| "known_refs ((path, Sets mods) # mc) =
     map (\<lambda>(name, m). \<lparr>ref_importPath = path, ref_name = name\<rparr>) mods @ known_refs mc"

text \<open>
  What an argument index of a call denotes: below \<^verbatim>\<open>len(given)\<close> the given at that
  position, from there on the output of the call at that position less \<^verbatim>\<open>len(given)\<close>.
\<close>

definition slotType :: "gotype list \<Rightarrow> call list \<Rightarrow> nat \<Rightarrow> gotype" where
  "slotType given cs i =
     (if i < length given then given ! i else call_out (cs ! (i - length given)))"

text \<open>
  The call at position \<open>k\<close> is the catalog's provider of its output type, its arguments
  denote the provider's parameter types in order, and each lies before the call.
\<close>

definition wellTyped :: "pmap \<Rightarrow> gotype list \<Rightarrow> call list \<Rightarrow> nat \<Rightarrow> bool" where
  "wellTyped prov given cs k =
     (case fmlookup prov (call_out (cs ! k)) of
        None \<Rightarrow> False
      | Some pr \<Rightarrow>
          call_importPath (cs ! k) = pi_importPath pr \<and>
          call_funcName (cs ! k) = pi_funcName pr \<and>
          call_hasErr (cs ! k) = pi_hasErr pr \<and>
          map (slotType given cs) (call_args (cs ! k)) = pi_args pr \<and>
          list_all (\<lambda>a. a < length given + k) (call_args (cs ! k)))"

text \<open>The invariant of the state of \<^verbatim>\<open>visit\<close>.\<close>

definition solve_inv :: "pmap \<Rightarrow> gotype list \<Rightarrow> solve_state \<Rightarrow> bool" where
  "solve_inv prov given st \<longleftrightarrow>
     (\<forall>t i. index st t = Some i \<longrightarrow>
        i < length given + length (calls st) \<and> slotType given (calls st) i = t) \<and>
     (\<forall>k < length (calls st). index st (call_out (calls st ! k)) = Some (length given + k)) \<and>
     (\<forall>k < length (calls st). wellTyped prov given (calls st) k)"




text \<open>The errors by the stage that reports them.\<close>

fun mergeError :: "error \<Rightarrow> bool" where
  "mergeError (MultipleBindingsInjector ps t prev) = True"
| "mergeError (MultipleBindingsImported ps t src prev) = True"
| "mergeError (NoSuchProviderSet name path) = True"
| "mergeError (AnalyzePackage path) = True"
| "mergeError (FindProviderSets msg) = True"
| "mergeError (AtPos ps err) = True"
| "mergeError err = False"

fun visitError :: "error \<Rightarrow> bool" where
  "visitError (CycleFor t) = True"
| "visitError (NoProviderOutput t) = True"
| "visitError (NoProviderRequired t u) = True"
| "visitError (Panic msg) = True"
| "visitError err = False"

fun givenError :: "error \<Rightarrow> bool" where
  "givenError (MultipleInputs t) = True"
| "givenError (InputConflict t name ps) = True"
| "givenError err = False"


text \<open>The generator with the text \<open>b\<close> put before what its buffer holds.\<close>

definition prepend :: "string \<Rightarrow> gen \<Rightarrow> gen" where
  "prepend b g = g\<lparr>g_buf := b @ g_buf g\<rparr>"

section \<open>An example program\<close>

definition tA :: gotype where "tA = Named (Some ''example.com/a'') ''A'' (Struct [])"
definition tB :: gotype where "tB = Named (Some ''example.com/b'') ''B'' (Pointer (Basic KInt))"
definition tC :: gotype where "tC = Named (Some ''example.com/b'') ''C'' (Basic KString)"
definition tX :: gotype where "tX = Named (Some ''example.com/cyc'') ''X'' (Basic KInt)"
definition tY :: gotype where "tY = Named (Some ''example.com/cyc'') ''Y'' (Basic KInt)"
definition tD :: gotype where "tD = Named (Some ''example.com/dup'') ''D'' (Basic KBool)"
definition tL :: gotype where "tL = Named (Some ''example.com/loop'') ''L'' (Slice (Basic KUint8))"
definition tP :: gotype where "tP = Basic KUnsafePointer"

definition newA :: providerInfo where
  "newA = \<lparr>pi_importPath = ''example.com/a'', pi_funcName = ''NewA'', pi_pos = 10,
           pi_args = [], pi_out = tA, pi_hasErr = False\<rparr>"
definition newB :: providerInfo where
  "newB = \<lparr>pi_importPath = ''example.com/b'', pi_funcName = ''NewB'', pi_pos = 20,
           pi_args = [tA], pi_out = tB, pi_hasErr = True\<rparr>"
definition newC :: providerInfo where
  "newC = \<lparr>pi_importPath = ''example.com/b'', pi_funcName = ''NewC'', pi_pos = 30,
           pi_args = [tA, tB], pi_out = tC, pi_hasErr = False\<rparr>"
definition newX :: providerInfo where
  "newX = \<lparr>pi_importPath = ''example.com/cyc'', pi_funcName = ''NewX'', pi_pos = 40,
           pi_args = [tY], pi_out = tX, pi_hasErr = False\<rparr>"
definition newY :: providerInfo where
  "newY = \<lparr>pi_importPath = ''example.com/cyc'', pi_funcName = ''NewY'', pi_pos = 41,
           pi_args = [tX], pi_out = tY, pi_hasErr = False\<rparr>"
definition newD1 :: providerInfo where
  "newD1 = \<lparr>pi_importPath = ''example.com/dup'', pi_funcName = ''NewD1'', pi_pos = 50,
            pi_args = [], pi_out = tD, pi_hasErr = False\<rparr>"
definition newD2 :: providerInfo where
  "newD2 = \<lparr>pi_importPath = ''example.com/dup'', pi_funcName = ''NewD2'', pi_pos = 51,
            pi_args = [], pi_out = tD, pi_hasErr = False\<rparr>"
definition newL :: providerInfo where
  "newL = \<lparr>pi_importPath = ''example.com/loop'', pi_funcName = ''NewL'', pi_pos = 60,
           pi_args = [], pi_out = tL, pi_hasErr = False\<rparr>"
definition newP :: providerInfo where
  "newP = \<lparr>pi_importPath = ''example.com/u'', pi_funcName = ''NewP'', pi_pos = 70,
           pi_args = [], pi_out = tP, pi_hasErr = False\<rparr>"

definition refA :: providerSetRef where
  "refA = \<lparr>ref_importPath = ''example.com/a'', ref_name = ''Module''\<rparr>"
definition refB :: providerSetRef where
  "refB = \<lparr>ref_importPath = ''example.com/b'', ref_name = ''Module''\<rparr>"
definition refCyc :: providerSetRef where
  "refCyc = \<lparr>ref_importPath = ''example.com/cyc'', ref_name = ''Module''\<rparr>"
definition refFirst :: providerSetRef where
  "refFirst = \<lparr>ref_importPath = ''example.com/dup'', ref_name = ''First''\<rparr>"
definition refSecond :: providerSetRef where
  "refSecond = \<lparr>ref_importPath = ''example.com/dup'', ref_name = ''Second''\<rparr>"
definition refBoth :: providerSetRef where
  "refBoth = \<lparr>ref_importPath = ''example.com/dup'', ref_name = ''Both''\<rparr>"
definition refLoop :: providerSetRef where
  "refLoop = \<lparr>ref_importPath = ''example.com/loop'', ref_name = ''Module''\<rparr>"
definition refU :: providerSetRef where
  "refU = \<lparr>ref_importPath = ''example.com/u'', ref_name = ''Module''\<rparr>"

definition exProg :: providerSetCache where
  "exProg =
     [(''example.com/a'', Sets [(''Module'', \<lparr>ps_providers = [newA], ps_imports = []\<rparr>)]),
      (''example.com/b'', Sets [(''Module'',
          \<lparr>ps_providers = [newB, newC], ps_imports = [\<lparr>imp_ref = refA, imp_pos = 25\<rparr>]\<rparr>)]),
      (''example.com/cyc'', Sets [(''Module'', \<lparr>ps_providers = [newX, newY], ps_imports = []\<rparr>)]),
      (''example.com/dup'', Sets
         [(''First'', \<lparr>ps_providers = [newD1], ps_imports = []\<rparr>),
          (''Second'', \<lparr>ps_providers = [newD2], ps_imports = []\<rparr>),
          (''Both'', \<lparr>ps_providers = [],
             ps_imports = [\<lparr>imp_ref = refFirst, imp_pos = 55\<rparr>,
                           \<lparr>imp_ref = refSecond, imp_pos = 56\<rparr>]\<rparr>)]),
      (''example.com/loop'', Sets [(''Module'',
          \<lparr>ps_providers = [newL], ps_imports = [\<lparr>imp_ref = refLoop, imp_pos = 65\<rparr>]\<rparr>)]),
      (''example.com/u'', Sets [(''Module'', \<lparr>ps_providers = [newP], ps_imports = []\<rparr>)])]"

definition injectA :: injector where
  "injectA = \<lparr>inj_pos = 100, inj_name = ''injectA'',
     inj_sig = \<lparr>sig_params = [], sig_results = [([], tA)]\<rparr>, inj_sets = [refA]\<rparr>"
definition injectC :: injector where
  "injectC = \<lparr>inj_pos = 200, inj_name = ''injectC'',
     inj_sig = \<lparr>sig_params = [(''n'', Basic KInt)],
                sig_results = [([], tC), ([], errorType)]\<rparr>,
     inj_sets = [refB]\<rparr>"

text \<open>
  \<open>injectC\<close> without the error result, and an injector of \<^verbatim>\<open>unsafe.Pointer\<close>.
\<close>

definition injectC1 :: injector where
  "injectC1 = \<lparr>inj_pos = 300, inj_name = ''injectC'',
     inj_sig = \<lparr>sig_params = [(''n'', Basic KInt)], sig_results = [([], tC)]\<rparr>,
     inj_sets = [refB]\<rparr>"
definition injectP :: injector where
  "injectP = \<lparr>inj_pos = 400, inj_name = ''injectP'',
     inj_sig = \<lparr>sig_params = [], sig_results = [([], tP)]\<rparr>, inj_sets = [refU]\<rparr>"




text \<open>The plan for \<open>injectC\<close> and the catalogs of the sets \<open>b.Module\<close> and \<open>cyc.Module\<close>.\<close>

definition exCalls :: "call list" where
  "exCalls =
     [\<lparr>call_importPath = ''example.com/a'', call_funcName = ''NewA'', call_args = [],
       call_out = tA, call_hasErr = False\<rparr>,
      \<lparr>call_importPath = ''example.com/b'', call_funcName = ''NewB'', call_args = [1],
       call_out = tB, call_hasErr = True\<rparr>,
      \<lparr>call_importPath = ''example.com/b'', call_funcName = ''NewC'', call_args = [1, 2],
       call_out = tC, call_hasErr = False\<rparr>]"

definition exCatalog :: pmap where
  "exCatalog = fmupd tA newA (fmupd tC newC (fmupd tB newB fmempty))"

definition cycCatalog :: pmap where
  "cycCatalog = fmupd tY newY (fmupd tX newX fmempty)"







lemmas ex_defs =
  tA_def tB_def tC_def tX_def tY_def tD_def tL_def tP_def
  newA_def newB_def newC_def newX_def newY_def newD1_def newD2_def newL_def newP_def
  refA_def refB_def refCyc_def refFirst_def refSecond_def refBoth_def refLoop_def refU_def
  exProg_def injectA_def injectC_def exCalls_def exCatalog_def cycCatalog_def
  injectC1_def injectP_def

section \<open>The merge returns\<close>

lemma get_known: "get mc r = Inr m \<Longrightarrow> r \<in> set (known_refs mc)"
proof (induction mc rule: known_refs.induct)
  case 1
  then show ?case by (simp add: get_def)
next
  case (2 path msg mc)
  then show ?case by (auto simp: get_def split: if_splits)
next
  case (3 path mods mc)
  show ?case
  proof (cases "ref_importPath r = path")
    case True
    with 3(2) have "map_of mods (ref_name r) = Some m"
      by (auto simp: get_def split: option.splits)
    then have "(ref_name r, m) \<in> set mods" by (rule map_of_SomeD)
    then have "\<lparr>ref_importPath = path, ref_name = ref_name r\<rparr>
        \<in> (\<lambda>(name, m). \<lparr>ref_importPath = path, ref_name = name\<rparr>) ` set mods"
      by force
    moreover have "r = \<lparr>ref_importPath = path, ref_name = ref_name r\<rparr>" using True by simp
    ultimately show ?thesis by simp
  next
    case False
    with 3 show ?thesis by (auto simp: get_def)
  qed
qed

lemma get_error: "get mc r = Inl e \<Longrightarrow> mergeError e"
  by (auto simp: get_def split: option.splits pkg_sets.splits)

lemma addProviders_error: "addProviders cur pm ps = Inl e \<Longrightarrow> mergeError e"
  by (induction ps arbitrary: pm) (auto split: option.splits if_splits)

lemma loop_total:
  "distinct fetched \<Longrightarrow> set fetched \<subseteq> visited \<Longrightarrow>
   \<exists>r f. buildProviderMap_loop mc pm visited fetched next = Some (r, f) \<and> distinct f \<and>
     (\<forall>e. r = Inl e \<longrightarrow> mergeError e)"
proof (induction "(card (set (known_refs mc) - visited), length next)"
    arbitrary: pm visited fetched "next" rule: wf_induct_rule[OF wf_lex_prod[OF wf_less_than wf_less_than]])
  case less: 1
  show ?case
  proof (cases "next")
    case Nil
    then show ?thesis using less.prems by (simp add: buildProviderMap_loop.simps)
  next
    case (Cons cur rest)
    show ?thesis
    proof (cases "ne_to cur \<in> visited")
      case True
      have "\<exists>r f. buildProviderMap_loop mc pm visited fetched rest = Some (r, f) \<and> distinct f \<and>
          (\<forall>e. r = Inl e \<longrightarrow> mergeError e)"
        using less.prems Cons by (intro less.hyps) auto
      then show ?thesis using True Cons by (subst buildProviderMap_loop.simps) simp
    next
      case False
      then have nf: "ne_to cur \<notin> set fetched" using less.prems by auto
      show ?thesis
      proof (cases "get mc (ne_to cur)")
        case (Inl err)
        then show ?thesis using False Cons nf less.prems get_error[OF Inl]
          by (subst buildProviderMap_loop.simps) simp
      next
        case (Inr md)
        show ?thesis
        proof (cases "addProviders cur pm (ps_providers md)")
          case (Inl err)
          then show ?thesis using False Cons nf less.prems Inr addProviders_error[OF Inl]
            by (subst buildProviderMap_loop.simps) simp
        next
          case (Inr pm')
          have "ne_to cur \<in> set (known_refs mc) - visited"
            using \<open>get mc (ne_to cur) = Inr md\<close> False by (simp add: get_known)
          then have "card (set (known_refs mc) - insert (ne_to cur) visited)
              < card (set (known_refs mc) - visited)"
            by (metis Diff_insert List.finite_set card_Diff1_less finite_Diff)
          then have "\<exists>r f. buildProviderMap_loop mc pm' (insert (ne_to cur) visited)
                 (fetched @ [ne_to cur])
                 (rest @ map (importEnt (ne_to cur)) (ps_imports md)) = Some (r, f) \<and> distinct f \<and>
               (\<forall>e. r = Inl e \<longrightarrow> mergeError e)"
            using less.prems nf by (intro less.hyps) auto
          then show ?thesis using False Cons Inr \<open>get mc (ne_to cur) = Inr md\<close>
            by (subst buildProviderMap_loop.simps) simp
        qed
      qed
    qed
  qed
qed

lemma buildProviderMap_total: "\<exists>r. buildProviderMap mc sets = Some r \<and> (\<forall>e. r = Inl e \<longrightarrow> mergeError e)"
  using loop_total[of "[]" "{}" mc fmempty "map rootEnt sets"]
  by (auto simp: buildProviderMap_def)

lemmas eval_defs = buildProviderMap_def buildProviderMap_loop.simps get_def
     rootEnt_def importEnt_def zeroRef_def IsValid_def

text \<open>
  Claim C7.  The merge returns on every program and every list of roots, whatever the
  import graph: the loop ends with a result, and the references it handed to
  \<^verbatim>\<open>mc.get\<close> are pairwise distinct, so each set is fetched and its providers are
  processed at most once.  An entry for a set already visited is skipped and changes
  nothing; the set that imports itself merges to its own single binding.
\<close>

theorem buildProviderMap_terminates:
  "(\<exists>r fetched. buildProviderMap_loop mc fmempty {} [] (map rootEnt sets) = Some (r, fetched) \<and>
       distinct fetched \<and> buildProviderMap mc sets = Some r) \<and>
   buildProviderMap_loop mc pm (insert (ne_to cur) visited) fetched' (cur # rest) =
     buildProviderMap_loop mc pm (insert (ne_to cur) visited) fetched' rest \<and>
   buildProviderMap exProg [refLoop] = Some (Inr (fmupd tL newL fmempty))"
proof (intro conjI)
  show "\<exists>r fetched. buildProviderMap_loop mc fmempty {} [] (map rootEnt sets) = Some (r, fetched) \<and>
       distinct fetched \<and> buildProviderMap mc sets = Some r"
    using loop_total[of "[]" "{}" mc fmempty "map rootEnt sets"]
    by (auto simp: buildProviderMap_def)
  show "buildProviderMap_loop mc pm (insert (ne_to cur) visited) fetched' (cur # rest) =
     buildProviderMap_loop mc pm (insert (ne_to cur) visited) fetched' rest"
    by (subst buildProviderMap_loop.simps) simp
  show "buildProviderMap exProg [refLoop] = Some (Inr (fmupd tL newL fmempty))"
    by (simp add: eval_defs ex_defs)
qed

text \<open>
  Claim C2.  The two messages are the wrong way round.  With the two roots \<open>First\<close> and
  \<open>Second\<close>, the duplicate of \<open>Second\<close> is reached from a root, and the error is the one
  that says \<^verbatim>\<open>imported by\<close>, naming the empty reference.  With the root \<open>Both\<close>, which
  imports the two, the duplicate is reached by an import of \<open>Both\<close>, and the error is
  the one that says \<^verbatim>\<open>added by injector\<close>.
\<close>

theorem buildProviderMap_conflict_message:
  "buildProviderMap exProg [refFirst, refSecond] =
     Some (Inl (MultipleBindingsImported 51 tD zeroRef 50)) \<and>
   buildProviderMap exProg [refBoth] =
     Some (Inl (MultipleBindingsInjector 51 tD 50))"
  by (simp add: eval_defs ex_defs)


section \<open>The invariant of the solver\<close>

lemma slotType_append:
  "i < length given + length cs \<Longrightarrow> slotType given (cs @ ext) i = slotType given cs i"
  by (auto simp: slotType_def nth_append)

lemma lookupArgs_Some:
  "lookupArgs idx as = Some args \<Longrightarrow> map idx as = map Some args"
  by (induction as arbitrary: args) (auto split: option.splits)

lemma wellTyped_iff:
  "wellTyped prov given cs k \<longleftrightarrow>
     (\<exists>pr. fmlookup prov (call_out (cs ! k)) = Some pr \<and>
        call_importPath (cs ! k) = pi_importPath pr \<and>
        call_funcName (cs ! k) = pi_funcName pr \<and>
        call_hasErr (cs ! k) = pi_hasErr pr \<and>
        map (slotType given cs) (call_args (cs ! k)) = pi_args pr \<and>
        (\<forall>a \<in> set (call_args (cs ! k)). a < length given + k))"
  by (cases "fmlookup prov (call_out (cs ! k))") (simp_all add: wellTyped_def list_all_iff)

lemma wellTyped_append:
  assumes "k < length cs" "wellTyped prov given cs k"
  shows "wellTyped prov given (cs @ ext) k"
proof -
  from assms obtain pr where pr: "fmlookup prov (call_out (cs ! k)) = Some pr"
    "call_importPath (cs ! k) = pi_importPath pr" "call_funcName (cs ! k) = pi_funcName pr"
    "call_hasErr (cs ! k) = pi_hasErr pr"
    "map (slotType given cs) (call_args (cs ! k)) = pi_args pr"
    "\<forall>a \<in> set (call_args (cs ! k)). a < length given + k"
    unfolding wellTyped_iff by blast
  have "map (slotType given (cs @ ext)) (call_args (cs ! k)) =
      map (slotType given cs) (call_args (cs ! k))"
    using pr(6) assms(1) by (intro map_cong refl slotType_append) auto
  then show ?thesis
    using pr assms(1) unfolding wellTyped_iff by (simp add: nth_append)
qed

lemma solve_inv_step:
  assumes inv: "solve_inv prov given st"
    and un: "index st typ = None"
    and pr: "fmlookup prov typ = Some pr"
    and la: "lookupArgs (index st) (pi_args pr) = Some args"
  shows "solve_inv prov given
    \<lparr>index = (index st)(typ \<mapsto> length given + length (calls st)),
     calls = calls st @
       [\<lparr>call_importPath = pi_importPath pr, call_funcName = pi_funcName pr,
         call_args = args, call_out = typ, call_hasErr = pi_hasErr pr\<rparr>]\<rparr>"
    (is "solve_inv prov given ?st'")
proof -
  let ?c = "\<lparr>call_importPath = pi_importPath pr, call_funcName = pi_funcName pr,
         call_args = args, call_out = typ, call_hasErr = pi_hasErr pr\<rparr>"
  let ?n = "length (calls st)"
  from inv have i1: "\<And>t i. index st t = Some i \<Longrightarrow>
        i < length given + ?n \<and> slotType given (calls st) i = t"
    and i2: "\<And>k. k < ?n \<Longrightarrow> index st (call_out (calls st ! k)) = Some (length given + k)"
    and i3: "\<And>k. k < ?n \<Longrightarrow> wellTyped prov given (calls st) k"
    unfolding solve_inv_def by blast+
  have new_slot: "slotType given (calls st @ [?c]) (length given + ?n) = typ"
    by (simp add: slotType_def)
  have c1: "i < length given + length (calls ?st') \<and> slotType given (calls ?st') i = t"
    if "index ?st' t = Some i" for t i
  proof (cases "t = typ")
    case True
    with that new_slot show ?thesis by auto
  next
    case False
    with that have "index st t = Some i" by simp
    from i1[OF this] show ?thesis by (simp add: slotType_append)
  qed
  have c2: "index ?st' (call_out (calls ?st' ! k)) = Some (length given + k)"
    if "k < length (calls ?st')" for k
  proof (cases "k < ?n")
    case True
    from i2[OF True] un have "call_out (calls st ! k) \<noteq> typ" by auto
    with i2[OF True] True show ?thesis by (simp add: nth_append)
  next
    case False
    with that have "k = ?n" by simp
    then show ?thesis by simp
  qed
  have c3: "wellTyped prov given (calls ?st') k" if "k < length (calls ?st')" for k
  proof (cases "k < ?n")
    case True
    from wellTyped_append[OF True i3[OF True]] show ?thesis by simp
  next
    case False
    with that have k: "k = ?n" by simp
    have m: "map (index st) (pi_args pr) = map Some args"
      using la by (rule lookupArgs_Some)
    then have len: "length args = length (pi_args pr)"
      by (metis length_map)
    have el: "index st (pi_args pr ! j) = Some (args ! j)" if "j < length args" for j
      using m that len by (metis nth_map)
    have b: "a < length given + ?n" if "a \<in> set args" for a
    proof -
      from that obtain j where "j < length args" "a = args ! j" by (auto simp: in_set_conv_nth)
      with el i1 show ?thesis by blast
    qed
    have "slotType given (calls st @ [?c]) (args ! j) = pi_args pr ! j" if "j < length args" for j
      using i1[OF el[OF that]] by (simp add: slotType_append)
    then have "map (slotType given (calls st @ [?c])) args = pi_args pr"
      using len by (simp add: list_eq_iff_nth_eq)
    then show ?thesis
      using k pr b unfolding wellTyped_iff by simp
  qed
  show ?thesis
    unfolding solve_inv_def using c1 c2 c3 by blast
qed

lemma visit_inv:
  "solve_inv prov given st \<Longrightarrow> ngiven = length given \<Longrightarrow> visit prov ngiven st trail = Inr st' \<Longrightarrow>
     solve_inv prov given st' \<and> index st' (last trail) \<noteq> None \<and>
     (\<forall>t \<in> set (butlast trail). index st t = None \<longrightarrow> index st' t = None)"
  "solve_inv prov given st \<Longrightarrow> ngiven = length given \<Longrightarrow> visit_args prov ngiven st trail as = Inr st' \<Longrightarrow>
     solve_inv prov given st' \<and> (\<forall>t \<in> set trail. index st t = None \<longrightarrow> index st' t = None)"
proof (induction prov ngiven st trail and prov ngiven st trail as arbitrary: st' and st'
    rule: visit_visit_args.induct)
  case (1 prov ngiven st trail)
  show ?case
  proof (cases "trail = [] \<or> index st (last trail) \<noteq> None \<or> last trail \<in> set (butlast trail)
      \<or> fmlookup prov (last trail) = None")
    case True
    with "1.prems" show ?thesis
      by (auto simp: visit.simps split: if_splits)
  next
    case False
    then obtain pr where pr: "fmlookup prov (last trail) = Some pr" by auto
    from False have ne: "trail \<noteq> []" and un: "index st (last trail) = None"
      and fresh: "last trail \<notin> set (butlast trail)" by auto
    from "1.prems"(3) ne un fresh pr obtain st'' args where
      va: "visit_args prov ngiven st trail (pi_args pr) = Inr st''"
      and la: "lookupArgs (index st'') (pi_args pr) = Some args"
      and st': "st' = \<lparr>index = (index st'')(last trail \<mapsto> ngiven + length (calls st'')),
                            calls = calls st'' @
                              [\<lparr>call_importPath = pi_importPath pr, call_funcName = pi_funcName pr,
                                call_args = args, call_out = last trail,
                                call_hasErr = pi_hasErr pr\<rparr>]\<rparr>"
      by (auto simp: visit.simps split: sum.splits option.splits)
    have ih: "solve_inv prov given st'' \<and>
        (\<forall>t \<in> set trail. index st t = None \<longrightarrow> index st'' t = None)"
      using "1.IH"[OF ne _ fresh pr "1.prems"(1,2) va] un by simp
    then have un'': "index st'' (last trail) = None" using un ne by simp
    have "solve_inv prov given st'"
      unfolding st' "1.prems"(2) using ih un'' pr la by (intro solve_inv_step) auto
    moreover have "\<forall>t \<in> set (butlast trail). index st t = None \<longrightarrow> index st' t = None"
    proof (intro ballI impI)
      fix t assume t: "t \<in> set (butlast trail)" "index st t = None"
      then have "t \<in> set trail" by (meson in_set_butlastD)
      with ih t have "index st'' t = None" by blast
      moreover have "t \<noteq> last trail" using t fresh by auto
      ultimately show "index st' t = None" by (simp add: st')
    qed
    moreover have "index st' (last trail) \<noteq> None" by (simp add: st')
    ultimately show ?thesis by blast
  qed
next
  case (2 prov ngiven st trail)
  then show ?case by simp
next
  case (3 prov ngiven st trail a as)
  from "3.prems"(3) obtain st1 where
    v: "visit prov ngiven st (trail @ [a]) = Inr st1"
    and va: "visit_args prov ngiven st1 trail as = Inr st'"
    by (auto split: sum.splits)
  have h1: "solve_inv prov given st1 \<and> (\<forall>t \<in> set trail. index st t = None \<longrightarrow> index st1 t = None)"
    using "3.IH"(1)[OF "3.prems"(1,2) v] by simp
  have h2: "solve_inv prov given st' \<and> (\<forall>t \<in> set trail. index st1 t = None \<longrightarrow> index st' t = None)"
    using "3.IH"(2)[OF v _ "3.prems"(2) va] h1 by blast
  from h1 h2 show ?case by blast
qed

lemma visit_error:
  "visit prov ngiven st trail = Inl e \<Longrightarrow> visitError e"
  "visit_args prov ngiven st trail as = Inl e \<Longrightarrow> visitError e"
proof (induction prov ngiven st trail and prov ngiven st trail as arbitrary: e and e
    rule: visit_visit_args.induct)
  case (1 prov ngiven st trail)
  from "1.prems" show ?case
    by (subst (asm) visit.simps) (auto split: if_splits option.splits sum.splits dest: "1.IH")
next
  case (2 prov ngiven st trail)
  then show ?case by simp
next
  case (3 prov ngiven st trail a as)
  from "3.prems" show ?case
    by (auto split: sum.splits dest: "3.IH")
qed

lemma findDup_None: "findDup seen gs = None \<longleftrightarrow> distinct gs \<and> set seen \<inter> set gs = {}"
  by (induction gs arbitrary: seen) auto

lemma findDup_Some: "findDup seen gs = Some g \<Longrightarrow> g \<in> set gs"
  by (induction gs arbitrary: seen) (auto split: if_splits)

lemma seedIndex_Inr:
  "seedIndex prov idx i gs = Inr idx' \<Longrightarrow>
     (\<forall>g \<in> set gs. fmlookup prov g = None) \<and> (\<forall>t. t \<notin> set gs \<longrightarrow> idx' t = idx t)"
  by (induction gs arbitrary: idx i) (auto split: option.splits)

lemma seedIndex_Inl:
  "seedIndex prov idx i gs = Inl e \<Longrightarrow>
     \<exists>g pr. g \<in> set gs \<and> fmlookup prov g = Some pr \<and> e = InputConflict g (pi_funcName pr) (pi_pos pr)"
proof (induction gs arbitrary: idx i)
  case Nil
  then show ?case by simp
next
  case (Cons g gs)
  show ?case
  proof (cases "fmlookup prov g")
    case None
    with Cons.prems have "seedIndex prov (idx(g \<mapsto> i)) (Suc i) gs = Inl e" by simp
    from Cons.IH[OF this] show ?thesis by auto
  next
    case (Some pr)
    with Cons.prems have "e = InputConflict g (pi_funcName pr) (pi_pos pr)" by simp
    with Some show ?thesis by auto
  qed
qed

lemma seedIndex_ok:
  "\<forall>g \<in> set gs. fmlookup prov g = None \<Longrightarrow> \<exists>idx'. seedIndex prov idx i gs = Inr idx'"
  by (induction gs arbitrary: idx i) auto

lemma seedIndex_sound:
  "seedIndex prov idx (length pre) gs = Inr idx' \<Longrightarrow> distinct (pre @ gs) \<Longrightarrow>
   (\<forall>t j. idx t = Some j \<longrightarrow> j < length pre \<and> pre ! j = t) \<Longrightarrow>
   (\<forall>t j. idx' t = Some j \<longrightarrow> j < length (pre @ gs) \<and> (pre @ gs) ! j = t)"
proof (induction gs arbitrary: pre idx)
  case Nil
  then show ?case by simp
next
  case (Cons g gs)
  from Cons.prems(1) have s: "seedIndex prov (idx(g \<mapsto> length pre)) (length (pre @ [g])) gs = Inr idx'"
    by (auto split: option.splits)
  have d: "distinct ((pre @ [g]) @ gs)" using Cons.prems(2) by simp
  have i: "\<forall>t j. (idx(g \<mapsto> length pre)) t = Some j \<longrightarrow> j < length (pre @ [g]) \<and> (pre @ [g]) ! j = t"
    using Cons.prems(3) by (auto simp: nth_append less_Suc_eq)
  from Cons.IH[OF s d i] show ?case by simp
qed

lemma seed_inv:
  assumes "seedIndex prov Map.empty 0 given = Inr idx" "distinct given"
  shows "solve_inv prov given \<lparr>index = idx, calls = []\<rparr>"
proof -
  have "\<forall>t j. idx t = Some j \<longrightarrow> j < length ([] @ given) \<and> ([] @ given) ! j = t"
    using assms by (intro seedIndex_sound[where pre="[]" and idx=Map.empty]) auto
  then show ?thesis by (simp add: solve_inv_def slotType_def)
qed

text \<open>What a successful \<open>solve\<close> went through.\<close>

lemma solve_InrD:
  assumes "solve mc out given sets = Some (Inr cs)"
  obtains prov idx st where "distinct given" "buildProviderMap mc sets = Some (Inr prov)"
    "seedIndex prov Map.empty 0 given = Inr idx"
    "visit prov (length given) \<lparr>index = idx, calls = []\<rparr> [out] = Inr st" "cs = calls st"
    "solve_inv prov given st" "index st out \<noteq> None"
proof -
  have fd: "findDup [] given = None"
    using assms by (cases "findDup [] given") (simp_all add: solve_def)
  then have d: "distinct given" by (simp add: findDup_None)
  obtain prov where bp: "buildProviderMap mc sets = Some (Inr prov)"
    using assms fd by (cases "buildProviderMap mc sets") (auto simp: solve_def split: sum.splits)
  obtain idx where si: "seedIndex prov Map.empty 0 given = Inr idx"
    using assms fd bp by (cases "seedIndex prov Map.empty 0 given") (simp_all add: solve_def)
  obtain st where v: "visit prov (length given) \<lparr>index = idx, calls = []\<rparr> [out] = Inr st"
    and cs: "cs = calls st"
    using assms fd bp si
    by (cases "visit prov (length given) \<lparr>index = idx, calls = []\<rparr> [out]")
       (simp_all add: solve_def)
  from visit_inv(1)[OF seed_inv[OF si d] refl v]
  have "solve_inv prov given st" "index st out \<noteq> None" by auto
  with d bp si v cs show ?thesis by (rule that)
qed

lemma solve_inv_distinct:
  assumes "solve_inv prov given st"
  shows "distinct (map call_out (calls st))"
proof -
  have "i = j" if "i < length (calls st)" "j < length (calls st)"
    "call_out (calls st ! i) = call_out (calls st ! j)" for i j
  proof -
    from assms that have a: "index st (call_out (calls st ! i)) = Some (length given + i)"
      and b: "index st (call_out (calls st ! j)) = Some (length given + j)"
      unfolding solve_inv_def by blast+
    have "Some (length given + i) = Some (length given + j)"
      using a b that(3) by metis
    then show ?thesis by simp
  qed
  then show ?thesis unfolding distinct_conv_nth by (simp add: nth_map) blast
qed

lemma solve_inv_resolved:
  assumes "solve_inv prov given st" "index st t \<noteq> None" "t \<notin> set given"
  shows "\<exists>j < length (calls st). call_out (calls st ! j) = t"
proof -
  from assms(2) obtain i where i: "index st t = Some i" by auto
  with assms(1) have b: "i < length given + length (calls st)" and s: "slotType given (calls st) i = t"
    unfolding solve_inv_def by blast+
  have "\<not> i < length given" using s assms(3) by (auto simp: slotType_def)
  with b s show ?thesis by (auto simp: slotType_def intro!: exI[of _ "i - length given"])
qed


section \<open>The example evaluated\<close>

lemma catalog_example: "buildProviderMap exProg [refB] = Some (Inr exCatalog)"
  by (simp add: eval_defs ex_defs)


lemma solve_example: "solve exProg tC [Basic KInt] [refB] = Some (Inr exCalls)"
  by (simp add: solve_def catalog_example) (simp add: ex_defs visit.simps)

lemma visitError_not_given: "visitError e \<Longrightarrow> \<not> givenError e"
  by (cases e) simp_all

lemma mergeError_not_given: "mergeError e \<Longrightarrow> \<not> givenError e"
  by (cases e) simp_all

lemma unique_output:
  assumes "distinct (map call_out cs)" "j < length cs" "call_out (cs ! j) = t"
  shows "\<exists>!j. j < length cs \<and> call_out (cs ! j) = t"
proof (rule ex1I[of _ j])
  show "j < length cs \<and> call_out (cs ! j) = t" using assms by simp
next
  fix i assume i: "i < length cs \<and> call_out (cs ! i) = t"
  then have "map call_out cs ! i = map call_out cs ! j" using assms by simp
  with assms(1,2) i show "i = j" by (simp add: nth_eq_iff_index_eq del: nth_map)
qed

section \<open>The plan of a successful solve\<close>

text \<open>
  Claim C1.  Whenever \<open>solve\<close> succeeds, the calls are in topological order: every
  argument of the call at position \<open>k\<close> is below \<^verbatim>\<open>len(given)\<close> + \<open>k\<close>.  The indices mean
  what the source says: the call is the catalog's provider of its output type, and its
  arguments, read as givens below \<^verbatim>\<open>len(given)\<close> and as outputs of earlier calls from
  there on, have the provider's parameter types in order.
\<close>

theorem solve_topological_order:
  assumes "solve mc out given sets = Some (Inr cs)" and "k < length cs"
  shows "(\<forall>a \<in> set (call_args (cs ! k)). a < length given + k) \<and>
         (\<exists>prov. buildProviderMap mc sets = Some (Inr prov) \<and> wellTyped prov given cs k)"
proof -
  from assms(1) obtain prov idx st where bp: "buildProviderMap mc sets = Some (Inr prov)"
    and cs: "cs = calls st" and inv: "solve_inv prov given st"
    by (rule solve_InrD)
  from inv assms(2) cs have wt: "wellTyped prov given cs k"
    unfolding solve_inv_def by blast
  then have "\<forall>a \<in> set (call_args (cs ! k)). a < length given + k"
    unfolding wellTyped_iff by blast
  with wt bp show ?thesis by blast
qed

theorem solve_topological_order_witness:
  "solve exProg tC [Basic KInt] [refB] = Some (Inr exCalls) \<and> length exCalls = 3 \<and>
   call_args (exCalls ! 2) = [1, 2] \<and>
   list_all (\<lambda>a. a < length [Basic KInt] + 2) (call_args (exCalls ! 2)) \<and>
   wellTyped exCatalog [Basic KInt] exCalls 2"
proof -
  have len: "(2::nat) < length exCalls" by (simp add: exCalls_def)
  from solve_topological_order[OF solve_example len]
  have "(\<forall>a \<in> set (call_args (exCalls ! 2)). a < length [Basic KInt] + 2) \<and>
        wellTyped exCatalog [Basic KInt] exCalls 2"
    by (simp add: catalog_example)
  then show ?thesis
    using solve_example by (simp add: list_all_iff) (simp add: exCalls_def)
qed

text \<open>
  Claim C6.  Whenever \<open>solve\<close> succeeds, no two calls have the same output type; the
  requested type, when it is not a given, is the output of exactly one call; and every
  parameter type of the provider behind a call, when it is not a given, is the output of
  exactly one call, however many providers take it.
\<close>

theorem solve_materializes_once:
  assumes "solve mc out given sets = Some (Inr cs)"
  shows "distinct (map call_out cs) \<and>
         (out \<notin> set given \<longrightarrow> (\<exists>!j. j < length cs \<and> call_out (cs ! j) = out)) \<and>
         (\<exists>prov. buildProviderMap mc sets = Some (Inr prov) \<and>
            (\<forall>k < length cs. \<forall>pr. fmlookup prov (call_out (cs ! k)) = Some pr \<longrightarrow>
               (\<forall>t \<in> set (pi_args pr). t \<notin> set given \<longrightarrow>
                  (\<exists>!j. j < length cs \<and> call_out (cs ! j) = t))))"
proof -
  from assms obtain prov idx st where bp: "buildProviderMap mc sets = Some (Inr prov)"
    and cs: "cs = calls st" and inv: "solve_inv prov given st" and res: "index st out \<noteq> None"
    by (rule solve_InrD)
  have d: "distinct (map call_out cs)"
    using inv cs by (simp add: solve_inv_distinct)
  have o: "\<exists>!j. j < length cs \<and> call_out (cs ! j) = out" if "out \<notin> set given"
  proof -
    from solve_inv_resolved[OF inv res that] obtain j where "j < length cs" "call_out (cs ! j) = out"
      using cs by auto
    with d show ?thesis by (intro unique_output)
  qed
  have a: "\<exists>!j. j < length cs \<and> call_out (cs ! j) = t"
    if k: "k < length cs" and pr: "fmlookup prov (call_out (cs ! k)) = Some pr"
      and t: "t \<in> set (pi_args pr)" "t \<notin> set given" for k pr t
  proof -
    from inv k cs have "wellTyped prov given cs k" unfolding solve_inv_def by blast
    with pr have m: "map (slotType given cs) (call_args (cs ! k)) = pi_args pr"
      and b: "\<forall>a \<in> set (call_args (cs ! k)). a < length given + k"
      unfolding wellTyped_iff by auto
    from t(1) m obtain a where a: "a \<in> set (call_args (cs ! k))" "slotType given cs a = t"
      by (metis (no_types, lifting) imageE list.set_map)
    have ge: "\<not> a < length given" using a(2) t(2) by (auto simp: slotType_def)
    then have "call_out (cs ! (a - length given)) = t" using a(2) by (simp add: slotType_def)
    moreover have "a - length given < length cs" using b a(1) k ge by fastforce
    ultimately show ?thesis using d by (intro unique_output)
  qed
  from d o a bp show ?thesis by blast
qed

theorem solve_materializes_once_witness:
  "solve exProg tC [Basic KInt] [refB] = Some (Inr exCalls) \<and>
   map call_out exCalls = [tA, tB, tC] \<and> distinct (map call_out exCalls) \<and>
   pi_args newB = [tA] \<and> pi_args newC = [tA, tB] \<and>
   (\<exists>!j. j < length exCalls \<and> call_out (exCalls ! j) = tA)"
proof -
  from solve_materializes_once[OF solve_example]
  have d: "distinct (map call_out exCalls)"
    and r: "\<forall>k < length exCalls. \<forall>pr. fmlookup exCatalog (call_out (exCalls ! k)) = Some pr \<longrightarrow>
               (\<forall>t \<in> set (pi_args pr). t \<notin> set [Basic KInt] \<longrightarrow>
                  (\<exists>!j. j < length exCalls \<and> call_out (exCalls ! j) = t))"
    by (simp_all add: catalog_example)
  have k: "(2::nat) < length exCalls" by (simp add: exCalls_def)
  have l: "fmlookup exCatalog (call_out (exCalls ! 2)) = Some newC"
    by (simp add: ex_defs)
  have t: "tA \<in> set (pi_args newC)" "tA \<notin> set [Basic KInt]"
    by (simp_all add: ex_defs)
  from r k l t have "\<exists>!j. j < length exCalls \<and> call_out (exCalls ! j) = tA" by blast
  moreover have "map call_out exCalls = [tA, tB, tC]" "pi_args newB = [tA]" "pi_args newC = [tA, tB]"
    by (simp_all add: exCalls_def newB_def newC_def)
  ultimately show ?thesis using d solve_example by simp
qed


section \<open>The errors of solve\<close>

lemma solve_dup:
  assumes "\<not> distinct given"
  shows "\<exists>t. t \<in> set given \<and> solve mc out given sets = Some (Inl (MultipleInputs t))"
proof -
  from assms have "findDup [] given \<noteq> None" by (simp add: findDup_None)
  then obtain t where t: "findDup [] given = Some t" by auto
  then have "solve mc out given sets = Some (Inl (MultipleInputs t))" by (simp add: solve_def)
  with findDup_Some[OF t] show ?thesis by blast
qed

lemma solve_seeded:
  assumes "distinct given" "buildProviderMap mc sets = Some (Inr prov)"
  shows "solve mc out given sets =
     (case seedIndex prov Map.empty 0 given of
        Inl err \<Rightarrow> Some (Inl err)
      | Inr idx \<Rightarrow>
          (case visit prov (length given) \<lparr>index = idx, calls = []\<rparr> [out] of
             Inl err \<Rightarrow> Some (Inl err)
           | Inr st \<Rightarrow> Some (Inr (calls st))))"
proof -
  from assms(1) have "findDup [] given = None" by (simp add: findDup_None)
  with assms(2) show ?thesis by (simp add: solve_def)
qed

lemma solve_conflict:
  assumes "distinct given" "buildProviderMap mc sets = Some (Inr prov)"
    and "g \<in> set given" "fmlookup prov g \<noteq> None"
  shows "\<exists>g pr. g \<in> set given \<and> fmlookup prov g = Some pr \<and>
     solve mc out given sets = Some (Inl (InputConflict g (pi_funcName pr) (pi_pos pr)))"
proof (cases "seedIndex prov Map.empty 0 given")
  case (Inl e)
  from seedIndex_Inl[OF Inl] obtain g' pr where "g' \<in> set given" "fmlookup prov g' = Some pr"
    "e = InputConflict g' (pi_funcName pr) (pi_pos pr)" by blast
  moreover have "solve mc out given sets = Some (Inl e)"
    using Inl by (simp add: solve_seeded[OF assms(1,2)])
  ultimately show ?thesis by blast
next
  case (Inr idx)
  from seedIndex_Inr[OF Inr] assms(3,4) show ?thesis by auto
qed

lemma solve_no_given_error:
  assumes "distinct given" "buildProviderMap mc sets = Some (Inr prov)"
    and "\<forall>g \<in> set given. fmlookup prov g = None"
    and "solve mc out given sets = Some (Inl e)"
  shows "visitError e"
proof -
  from seedIndex_ok[OF assms(3)] obtain idx where idx: "seedIndex prov Map.empty 0 given = Inr idx"
    by blast
  show ?thesis
  proof (cases "visit prov (length given) \<lparr>index = idx, calls = []\<rparr> [out]")
    case (Inl e')
    then have "solve mc out given sets = Some (Inl e')"
      using idx by (simp add: solve_seeded[OF assms(1,2)])
    with assms(4) Inl show ?thesis by (auto dest: visit_error(1))
  next
    case (Inr st)
    then have "solve mc out given sets = Some (Inr (calls st))"
      using idx by (simp add: solve_seeded[OF assms(1,2)])
    with assms(4) show ?thesis by simp
  qed
qed

text \<open>
  Claim C4.  \<open>solve\<close> checks the givens before it resolves anything.  A list of givens
  with a repeated type fails with the error for multiple inputs of that type, whatever
  the sets are.  With distinct givens and a merged catalog, a given that is a key of the
  catalog fails with the conflict error that names the provider and its position, whatever
  the requested type is.  With distinct givens none of which is a key of the catalog,
  \<open>solve\<close> returns neither of the two errors.
\<close>

theorem solve_checks_givens_first:
  "(\<not> distinct given \<longrightarrow>
      (\<exists>t. t \<in> set given \<and> solve mc out given sets = Some (Inl (MultipleInputs t)))) \<and>
   (distinct given \<and> buildProviderMap mc sets = Some (Inr prov) \<and>
      (\<exists>g \<in> set given. fmlookup prov g \<noteq> None) \<longrightarrow>
      (\<exists>g pr. g \<in> set given \<and> fmlookup prov g = Some pr \<and>
         solve mc out given sets = Some (Inl (InputConflict g (pi_funcName pr) (pi_pos pr))))) \<and>
   (distinct given \<and> buildProviderMap mc sets = Some (Inr prov) \<and>
      (\<forall>g \<in> set given. fmlookup prov g = None) \<longrightarrow>
      (\<forall>e. solve mc out given sets = Some (Inl e) \<longrightarrow> \<not> givenError e))"
proof (intro conjI impI allI)
  assume "\<not> distinct given"
  then show "\<exists>t. t \<in> set given \<and> solve mc out given sets = Some (Inl (MultipleInputs t))"
    by (rule solve_dup)
next
  assume "distinct given \<and> buildProviderMap mc sets = Some (Inr prov) \<and>
      (\<exists>g \<in> set given. fmlookup prov g \<noteq> None)"
  then show "\<exists>g pr. g \<in> set given \<and> fmlookup prov g = Some pr \<and>
         solve mc out given sets = Some (Inl (InputConflict g (pi_funcName pr) (pi_pos pr)))"
    using solve_conflict by blast
next
  fix e
  assume "distinct given \<and> buildProviderMap mc sets = Some (Inr prov) \<and>
      (\<forall>g \<in> set given. fmlookup prov g = None)"
    and "solve mc out given sets = Some (Inl e)"
  then have "visitError e" using solve_no_given_error by blast
  then show "\<not> givenError e" by (rule visitError_not_given)
qed

lemma solve_example_missing: "solve exProg tD [Basic KInt] [refB] = Some (Inl (NoProviderOutput tD))"
  by (simp add: solve_def catalog_example) (simp add: ex_defs visit.simps)

theorem solve_checks_givens_first_witness:
  "solve exProg tC [tA, tA] [refB] = Some (Inl (MultipleInputs tA)) \<and>
   solve exProg (Basic KBool) [tA] [refB] = Some (Inl (InputConflict tA ''NewA'' 10)) \<and>
   solve exProg tD [Basic KInt] [refB] = Some (Inl (NoProviderOutput tD)) \<and>
   \<not> givenError (NoProviderOutput tD)"
proof -
  have "\<not> distinct [tA, tA]" by simp
  with solve_checks_givens_first[where given="[tA, tA]" and mc=exProg and out=tC and sets="[refB]"]
  have 1: "solve exProg tC [tA, tA] [refB] = Some (Inl (MultipleInputs tA))" by auto
  have "distinct [tA] \<and> buildProviderMap exProg [refB] = Some (Inr exCatalog) \<and>
      (\<exists>g \<in> set [tA]. fmlookup exCatalog g \<noteq> None)"
    by (simp add: catalog_example) (simp add: exCatalog_def)
  with solve_checks_givens_first[where given="[tA]" and mc=exProg and sets="[refB]" and prov=exCatalog and out="Basic KBool"]
  obtain pr where pr: "fmlookup exCatalog tA = Some pr"
    "solve exProg (Basic KBool) [tA] [refB] = Some (Inl (InputConflict tA (pi_funcName pr) (pi_pos pr)))"
    by auto
  have "fmlookup exCatalog tA = Some newA" by (simp add: exCatalog_def)
  with pr(1) have "pr = newA" by simp
  with pr(2) have 2: "solve exProg (Basic KBool) [tA] [refB] = Some (Inl (InputConflict tA ''NewA'' 10))"
    by (simp add: newA_def)
  have "distinct [Basic KInt] \<and> buildProviderMap exProg [refB] = Some (Inr exCatalog) \<and>
      (\<forall>g \<in> set [Basic KInt]. fmlookup exCatalog g = None)"
    by (simp add: catalog_example) (simp add: ex_defs)
  with solve_checks_givens_first[where given="[Basic KInt]" and mc=exProg and sets="[refB]" and prov=exCatalog and out=tD] solve_example_missing
  have 3: "\<not> givenError (NoProviderOutput tD)" by blast
  from 1 2 3 solve_example_missing show ?thesis by blast
qed


subsection \<open>Cycles\<close>

























section \<open>Earlier text does not change what is emitted\<close>

lemma prepend_fields [simp]:
  "g_currPackage (prepend b g) = g_currPackage g"
  "g_imports (prepend b g) = g_imports g"
  "g_n (prepend b g) = g_n g"
  "g_buf (prepend b g) = b @ g_buf g"
  by (simp_all add: prepend_def)













section \<open>The examples emitted\<close>

lemmas emit_defs = injectEmit_def newGen_def p_def zeroValue_def
  qualifyImport_def qualifiedID_def showNat.simps digit_def Let_def
  IsBoolean_def IsInteger_def IsFloat_def IsComplex_def IsString_def IsUnsigned_def IsUntyped_def


lemma solve_example_P: "solve exProg tP [] [refU] = Some (Inr [\<lparr>call_importPath = ''example.com/u'',
    call_funcName = ''NewP'', call_args = [], call_out = tP, call_hasErr = False\<rparr>])"
  by (simp add: solve_def eval_defs ex_defs visit.simps)




lemma inject_example_C1_fails:
  "inject exProg ''injectC'' (inj_sig injectC1) [refB] (newGen ''example.com/app'') =
     Some (Some (ProviderReturnsError ''injectC'' tB), newGen ''example.com/app'')"
  by (simp add: inject_def injectC1_def solve_example exCalls_def)

lemma inject_example_P:
  "inject exProg ''injectP'' (inj_sig injectP) [refU] (newGen ''example.com/app'') =
     Some (Some (Panic ''unreachable''),
           (newGen ''example.com/app'')\<lparr>g_buf := ''func injectP() unsafe.Pointer {\<newline>''\<rparr>)"
  by (simp add: inject_def injectP_def solve_example_P)
     (simp add: emit_defs tP_def)


section \<open>One generator for all injectors\<close>






section \<open>The errors of inject\<close>

lemma Underlying_not_Named: "Underlying t \<noteq> Named pkg name u"
  by (induction t) simp_all

lemma zeroValue_Inl: "zeroValue g t = Inl e \<Longrightarrow> e = Panic ''unreachable''"
  by (cases "Underlying t") (auto simp: zeroValue_def Let_def split_def split: if_splits)

lemma injectEmit_error:
  "injectEmit name params outType returnsErr cs g = (Some e, g') \<Longrightarrow> e = Panic ''unreachable''"
  by (auto simp: injectEmit_def Let_def split_def split: sum.splits dest: zeroValue_Inl)

lemma solve_error_class:
  assumes "solve mc out given sets = Some (Inl e)"
  shows "givenError e \<or> mergeError e \<or> visitError e"
proof (cases "findDup [] given")
  case (Some t)
  with assms show ?thesis by (auto simp: solve_def)
next
  case None
  from buildProviderMap_total[of mc sets] obtain r where r: "buildProviderMap mc sets = Some r"
    "\<forall>e. r = Inl e \<longrightarrow> mergeError e" by blast
  show ?thesis
  proof (cases r)
    case (Inl e')
    with r None assms show ?thesis by (auto simp: solve_def)
  next
    case (Inr prov)
    show ?thesis
    proof (cases "seedIndex prov Map.empty 0 given")
      case (Inl e')
      with r None Inr assms have "e' = e" by (simp add: solve_def)
      with seedIndex_Inl[OF Inl] show ?thesis by auto
    next
      case si: (Inr idx)
      show ?thesis
      proof (cases "visit prov (length given) \<lparr>index = idx, calls = []\<rparr> [out]")
        case (Inl e')
        with r None Inr si assms have "e' = e" by (simp add: solve_def)
        with visit_error(1)[OF Inl] show ?thesis by simp
      next
        case (Inr st)
        with r None \<open>r = Inr prov\<close> si assms show ?thesis by (simp add: solve_def)
      qed
    qed
  qed
qed

text \<open>The errors of \<open>inject\<close> by the place that returns them.\<close>

lemma inject_cases:
  "inject mc name sig sets g = Some (Some e, g') \<Longrightarrow>
     (sig_results sig = [] \<and> e = NoReturnValues name \<and> g' = g) \<or>
     (length (sig_results sig) = 2 \<and> snd (sig_results sig ! 1) \<noteq> errorType \<and>
        e = SecondReturnNotError name (snd (sig_results sig ! 1)) \<and> g' = g) \<or>
     (2 < length (sig_results sig) \<and> e = TooManyReturnValues name \<and> g' = g) \<or>
     ((givenError e \<or> mergeError e \<or> visitError e) \<and> e \<noteq> Panic ''unreachable'' \<and> g' = g \<and>
        solve mc (snd (sig_results sig ! 0)) (map snd (sig_params sig)) sets = Some (Inl e)) \<or>
     (length (sig_results sig) = 1 \<and> g' = g \<and>
        (\<exists>cs c. solve mc (snd (sig_results sig ! 0)) (map snd (sig_params sig)) sets = Some (Inr cs) \<and>
           find call_hasErr cs = Some c \<and> e = ProviderReturnsError name (call_out c))) \<or>
     e = Panic ''unreachable''"
proof -
  assume a: "inject mc name sig sets g = Some (Some e, g')"
  let ?rs = "sig_results sig"
  let ?sv = "solve mc (snd (?rs ! 0)) (map snd (sig_params sig)) sets"
  consider (zero) "?rs = []"
    | (bad) "length ?rs = 2" "snd (?rs ! 1) \<noteq> errorType"
    | (many) "2 < length ?rs"
    | (ok) "?rs \<noteq> []" "\<not> (length ?rs = 2 \<and> snd (?rs ! 1) \<noteq> errorType)" "\<not> 2 < length ?rs"
    by blast
  then show ?thesis
  proof cases
    case zero
    then have "inject mc name sig sets g = Some (Some (NoReturnValues name), g)"
      by (simp add: inject_def Let_def)
    with a zero show ?thesis by simp
  next
    case bad
    then have "inject mc name sig sets g =
        Some (Some (SecondReturnNotError name (snd (?rs ! 1))), g)"
      by (auto simp: inject_def Let_def)
    with a bad show ?thesis by simp
  next
    case many
    then have "inject mc name sig sets g = Some (Some (TooManyReturnValues name), g)"
      by (auto simp: inject_def Let_def)
    with a many show ?thesis by simp
  next
    case ok
    then have eq: "inject mc name sig sets g =
        (case ?sv of
              None \<Rightarrow> None
            | Some (Inl err) \<Rightarrow> Some (Some err, g)
            | Some (Inr cs) \<Rightarrow>
                (case find (\<lambda>c. call_hasErr c \<and> \<not> (length ?rs = 2)) cs of
                   Some c \<Rightarrow> Some (Some (ProviderReturnsError name (call_out c)), g)
                 | None \<Rightarrow> Some (injectEmit name (sig_params sig) (snd (?rs ! 0)) (length ?rs = 2) cs g)))"
      by (auto simp: inject_def Let_def)
    show ?thesis
    proof (cases ?sv)
      case None
      with a eq show ?thesis by simp
    next
      case (Some r)
      show ?thesis
      proof (cases r)
        case (Inl e')
        with a eq Some have e: "e' = e" "g' = g" by simp_all
        with Some Inl have "?sv = Some (Inl e)" by simp
        with solve_error_class[OF this] e show ?thesis by blast
      next
        case (Inr cs)
        show ?thesis
        proof (cases "find (\<lambda>c. call_hasErr c \<and> \<not> (length ?rs = 2)) cs")
          case None
          with a eq Some Inr show ?thesis by (auto dest: injectEmit_error)
        next
          case (Some c)
          then have n2: "length ?rs \<noteq> 2" by (auto simp: find_Some_iff)
          have "length ?rs \<noteq> 0" using ok(1) by simp
          with ok(3) n2 have l1: "length ?rs = 1" by arith
          from Some n2 have "find call_hasErr cs = Some c" by simp
          with a eq \<open>?sv = Some r\<close> Inr Some l1 show ?thesis by auto
        qed
      qed
    qed
  qed
qed

lemma zeroValue_Inl_iff:
  "zeroValue g t = Inl e \<longleftrightarrow>
     e = Panic ''unreachable'' \<and>
     (Underlying t = Basic KInvalid \<or> Underlying t = Basic KUnsafePointer \<or>
      Underlying t = Basic KUntypedNil \<or> (\<exists>vars. Underlying t = Tuple vars))"
proof (cases "Underlying t")
  case (Basic k)
  then show ?thesis
    by (cases k) (auto simp: zeroValue_def IsBoolean_def IsInteger_def IsFloat_def IsComplex_def
        IsString_def IsUnsigned_def IsUntyped_def)
next
  case (Named pkg name u)
  then show ?thesis using Underlying_not_Named by blast
qed (auto simp: zeroValue_def Let_def split_def)

text \<open>
  Claim C8.  For a signature with a single result, a plan with a call that can fail makes
  \<open>inject\<close> return the error that names the output type of the first such call, and the
  generator is the one it was called with: nothing has been written.  Whenever \<open>inject\<close>
  returns this error, the signature has a single result, the plan has such a call and the
  generator is unchanged.  Every error that \<open>inject\<close> returns, other than the panic of
  \<^verbatim>\<open>zeroValue\<close>, leaves the generator unchanged.
\<close>

theorem inject_rejects_failing_provider:
  "(length (sig_results sig) = 1 \<and>
    solve mc (snd (sig_results sig ! 0)) (map snd (sig_params sig)) sets = Some (Inr cs) \<and>
    (\<exists>c \<in> set cs. call_hasErr c) \<longrightarrow>
      (\<exists>c. find call_hasErr cs = Some c \<and>
         inject mc name sig sets g = Some (Some (ProviderReturnsError name (call_out c)), g))) \<and>
   (inject mc name sig sets g = Some (Some (ProviderReturnsError nm t), g') \<longrightarrow>
      g' = g \<and> nm = name \<and> length (sig_results sig) = 1 \<and>
      (\<exists>cs c. solve mc (snd (sig_results sig ! 0)) (map snd (sig_params sig)) sets = Some (Inr cs) \<and>
         find call_hasErr cs = Some c \<and> call_out c = t)) \<and>
   (inject mc name sig sets g = Some (Some e, g') \<and> e \<noteq> Panic ''unreachable'' \<longrightarrow> g' = g)"
  (is "?A \<and> ?B \<and> ?C")
proof -
  have a: ?A
  proof (rule impI)
    assume h: "length (sig_results sig) = 1 \<and>
      solve mc (snd (sig_results sig ! 0)) (map snd (sig_params sig)) sets = Some (Inr cs) \<and>
      (\<exists>c \<in> set cs. call_hasErr c)"
    then have "find call_hasErr cs \<noteq> None" by (auto simp: find_None_iff)
    then obtain c where c: "find call_hasErr cs = Some c" by auto
    with h have "inject mc name sig sets g = Some (Some (ProviderReturnsError name (call_out c)), g)"
      by (auto simp: inject_def Let_def)
    with c show "\<exists>c. find call_hasErr cs = Some c \<and>
         inject mc name sig sets g = Some (Some (ProviderReturnsError name (call_out c)), g)"
      by blast
  qed
  have b: ?B
  proof (rule impI)
    assume "inject mc name sig sets g = Some (Some (ProviderReturnsError nm t), g')"
    from inject_cases[OF this]
    show "g' = g \<and> nm = name \<and> length (sig_results sig) = 1 \<and>
      (\<exists>cs c. solve mc (snd (sig_results sig ! 0)) (map snd (sig_params sig)) sets = Some (Inr cs) \<and>
         find call_hasErr cs = Some c \<and> call_out c = t)"
      by auto
  qed
  have c: ?C
  proof (rule impI)
    assume h: "inject mc name sig sets g = Some (Some e, g') \<and> e \<noteq> Panic ''unreachable''"
    then have "inject mc name sig sets g = Some (Some e, g')" by simp
    from inject_cases[OF this] h show "g' = g" by auto
  qed
  show ?thesis by (rule conjI, rule a, rule conjI, rule b, rule c)
qed

theorem inject_rejects_failing_provider_witness:
  "solve exProg tC [Basic KInt] [refB] = Some (Inr exCalls) \<and>
   find call_hasErr exCalls = Some (exCalls ! 1) \<and> call_out (exCalls ! 1) = tB \<and>
   inject exProg ''injectC'' (inj_sig injectC1) [refB] (newGen ''example.com/app'') =
     Some (Some (ProviderReturnsError ''injectC'' tB), newGen ''example.com/app'')"
proof -
  have f: "find call_hasErr exCalls = Some (exCalls ! 1)" "call_out (exCalls ! 1) = tB"
    by (simp_all add: exCalls_def)
  have "\<exists>c. find call_hasErr exCalls = Some c \<and>
      inject exProg ''injectC'' (inj_sig injectC1) [refB] (newGen ''example.com/app'') =
        Some (Some (ProviderReturnsError ''injectC'' (call_out c)), newGen ''example.com/app'')"
    using inject_rejects_failing_provider[where sig="inj_sig injectC1" and mc=exProg
        and sets="[refB]" and cs=exCalls and name="''injectC''" and g="newGen ''example.com/app''"]
      solve_example
    by (simp add: injectC1_def exCalls_def)
  with f solve_example show ?thesis by simp
qed



text \<open>The zero value by the category of the underlying type, where there is one.\<close>

lemma zeroValue_categories:
  "Underlying t = Array n el \<or> Underlying t = Struct flds \<Longrightarrow>
     zeroValue g t = Inr (fst (TypeString g t) @ ''{}'', snd (TypeString g t))"
  "Underlying t = Basic k \<Longrightarrow> k \<in> {KBool, KUntypedBool} \<Longrightarrow> zeroValue g t = Inr (''false'', g)"
  "Underlying t = Basic k \<Longrightarrow>
     k \<in> {KInt, KInt8, KInt16, KInt32, KInt64, KUint, KUint8, KUint16, KUint32, KUint64,
          KUintptr, KFloat32, KFloat64, KComplex64, KComplex128,
          KUntypedInt, KUntypedRune, KUntypedFloat, KUntypedComplex} \<Longrightarrow>
     zeroValue g t = Inr (''0'', g)"
  "Underlying t = Basic k \<Longrightarrow> k \<in> {KString, KUntypedString} \<Longrightarrow>
     zeroValue g t = Inr ([CHR 0x22, CHR 0x22], g)"
  "Underlying t = Chan el \<or> Underlying t = Interface ms \<or> Underlying t = Map kt vt \<or>
   Underlying t = Pointer el \<or> Underlying t = Signature ps rs \<or> Underlying t = Slice el \<Longrightarrow>
     zeroValue g t = Inr (''nil'', g)"
  by (auto simp: zeroValue_def split_def Let_def IsBoolean_def IsInteger_def IsFloat_def IsComplex_def
      IsString_def IsUnsigned_def IsUntyped_def)

text \<open>
  Claim C9.  Arrays and structs, numeric, boolean and string types, and channel,
  interface, map, pointer, function and slice types get the zero value of their category
  (\<open>zeroValue_categories\<close>), but the categories do not cover every type.  \<^verbatim>\<open>zeroValue\<close>
  reaches \<^verbatim>\<open>panic("unreachable")\<close> exactly for the types whose underlying type is a tuple
  or one of the basic types \<^verbatim>\<open>invalid type\<close>, \<^verbatim>\<open>unsafe.Pointer\<close> and \<^verbatim>\<open>untyped nil\<close>.
  \<^verbatim>\<open>unsafe.Pointer\<close> is a type of programs that compile: its flags in the table of basic
  types are zero, so none of the three tests on the flags holds.  For the injector
  \<^verbatim>\<open>func injectP() unsafe.Pointer\<close> with the provider \<^verbatim>\<open>func NewP() unsafe.Pointer\<close> the
  solver returns a plan, and \<open>inject\<close> panics after it has written the header of the
  function.
\<close>

theorem zeroValue_panics_on_unsafe_pointer:
  "(zeroValue g t = Inl e \<longleftrightarrow>
      e = Panic ''unreachable'' \<and>
      (Underlying t = Basic KInvalid \<or> Underlying t = Basic KUnsafePointer \<or>
       Underlying t = Basic KUntypedNil \<or> (\<exists>vars. Underlying t = Tuple vars))) \<and>
   solve exProg tP [] [refU] =
     Some (Inr [\<lparr>call_importPath = ''example.com/u'', call_funcName = ''NewP'', call_args = [],
                 call_out = tP, call_hasErr = False\<rparr>]) \<and>
   zeroValue (newGen ''example.com/app'') tP = Inl (Panic ''unreachable'') \<and>
   inject exProg ''injectP'' (inj_sig injectP) [refU] (newGen ''example.com/app'') =
     Some (Some (Panic ''unreachable''),
           (newGen ''example.com/app'')\<lparr>g_buf := ''func injectP() unsafe.Pointer {\<newline>''\<rparr>)"
proof (intro conjI)
  show "zeroValue g t = Inl e \<longleftrightarrow>
      e = Panic ''unreachable'' \<and>
      (Underlying t = Basic KInvalid \<or> Underlying t = Basic KUnsafePointer \<or>
       Underlying t = Basic KUntypedNil \<or> (\<exists>vars. Underlying t = Tuple vars))"
    by (rule zeroValue_Inl_iff)
  show "zeroValue (newGen ''example.com/app'') tP = Inl (Panic ''unreachable'')"
    by (simp add: zeroValue_Inl_iff tP_def)
qed (rule solve_example_P inject_example_P)+

end
